theory Spec2Isabelle
  imports Complex_Main "HOL-Library.Word" "HOL-Library.Multiset" "HOL-Library.FSet"
begin

section \<open>Python exceptions\<close>

text \<open>
  The exceptions that the modelled code paths can raise. A function of the source that may
  raise returns \<open>error + 'a\<close>, with \<open>Inl\<close> carrying the exception.
\<close>

datatype error =
    TypeError
  | StopIteration
  | ZeroDivisionError
  | UnboundLocalError
  | OperationFailure
  | BulkWriteError

section \<open>The database capability\<close>

text \<open>
  \<open>fetch_mongo\<close> annotates its identifier bounds as \<open>ObjectId\<close>: twelve bytes, compared
  bytewise, which is the unsigned order of the 96-bit big-endian value. \<open>bson.ObjectId\<close>
  defines neither \<open>__bool__\<close> nor \<open>__len__\<close>, so every instance is truthy.
\<close>

type_synonym ObjectId = "96 word"

definition truthy :: "ObjectId \<Rightarrow> bool" where
  "truthy i = True"

text \<open>Field values of a document; the identifier is kept apart from the other fields.\<close>

datatype bson = BInt int | BStr string | BOid ObjectId

record document =
  doc_id :: ObjectId
  doc_fields :: "(string \<times> bson) list"

text \<open>A match filter is an opaque query predicate; the empty filter \<open>{}\<close> accepts all.\<close>

type_synonym match_filter = "document \<Rightarrow> bool"

definition match_all :: match_filter where
  "match_all d = True"

text \<open>
  A collection as the driver sees it: the stored documents (in natural order), the count kept
  in the collection metadata (\<open>estimated_document_count\<close>), and the server's answer to a
  \<open>$bucketAuto\<close> stage grouping by \<open>$_id\<close>, as a function of the ascending identifiers that
  reach the stage and of the requested number of buckets. A bucket is its pair
  \<open>(_id.min, _id.max)\<close>.
\<close>

record collection =
  docs :: "document list"
  estimated_document_count :: nat
  bucket_auto :: "ObjectId list \<Rightarrow> int \<Rightarrow> error + (ObjectId \<times> ObjectId) list"

text \<open>The stage \<open>{"$match": match}\<close>.\<close>

definition match_stage :: "match_filter \<Rightarrow> document list \<Rightarrow> document list" where
  "match_stage m ds = filter m ds"

text \<open>
  The stage \<open>{"$count": "count"}\<close>: one row holding the number of input documents, and no
  row at all when there is no input document.
\<close>

definition count_stage :: "document list \<Rightarrow> nat list" where
  "count_stage ds = (if ds = [] then [] else [length ds])"

text \<open>Python's \<open>next\<close> on a cursor.\<close>

definition py_next :: "'a list \<Rightarrow> error + 'a" where
  "py_next xs = (case xs of [] \<Rightarrow> Inl StopIteration | x # _ \<Rightarrow> Inr x)"

text \<open>\<open>coll.find(match, {"_id": 1}).sort("_id", 1)\<close>: the matched identifiers, ascending.\<close>

definition find_sorted_ids :: "collection \<Rightarrow> match_filter \<Rightarrow> ObjectId list" where
  "find_sorted_ids coll m = sort (map doc_id (match_stage m (docs coll)))"

text \<open>
  \<open>coll.find_one(sort=[("_id", 1)])\<close>: the document of least identifier in the whole
  collection (no filter is passed), or \<open>None\<close> when the collection is empty.
\<close>

definition find_one_sorted :: "collection \<Rightarrow> document option" where
  "find_one_sorted coll =
     (case sort_key doc_id (docs coll) of [] \<Rightarrow> None | d # _ \<Rightarrow> Some d)"

text \<open>Subscripting the result of \<open>find_one\<close> with \<open>["_id"]\<close>; \<open>None\<close> is not subscriptable.\<close>

definition subscript_id :: "document option \<Rightarrow> error + ObjectId" where
  "subscript_id r = (case r of None \<Rightarrow> Inl TypeError | Some d \<Rightarrow> Inr (doc_id d))"

section \<open>The partition fetcher\<close>

text \<open>
  \<open>match2 = {"_id": {"$gte": id_min, "$lte" if include_last else "$lt": id_max}}\<close>
\<close>

definition match2 :: "ObjectId \<Rightarrow> ObjectId \<Rightarrow> bool \<Rightarrow> match_filter" where
  "match2 id_min id_max include_last d =
     (id_min \<le> doc_id d \<and> (if include_last then doc_id d \<le> id_max else doc_id d < id_max))"

text \<open>
  \<open>fetch_mongo\<close> from the line that selects the collection on: the two \<open>$match\<close> stages in
  sequence, materialised as a list.
\<close>

definition fetch_mongo ::
  "collection \<Rightarrow> match_filter \<Rightarrow> ObjectId \<Rightarrow> ObjectId \<Rightarrow> bool \<Rightarrow> document list" where
  "fetch_mongo coll m id_min id_max include_last =
     match_stage (match2 id_min id_max include_last) (match_stage m (docs coll))"

section \<open>The partition planner and the read assembler\<close>

text \<open>
  \<open>int(ceil(nrows / chunksize))\<close>. The quotient is a true division, which raises for a zero
  divisor; its ceiling is written with floor division, which is what the float computation
  gives for counts below \<open>2 ^ 53\<close>.
\<close>

definition ceil_div :: "int \<Rightarrow> int \<Rightarrow> error + int" where
  "ceil_div nrows chunksize =
     (if chunksize = 0 then Inl ZeroDivisionError else Inr (- ((- nrows) div chunksize)))"

text \<open>
  The loop of the paginated scan over \<open>enumerate(cursor)\<close>. The state is \<open>prev_id\<close>, the
  descriptors appended so far and the loop variable \<open>doc\<close>, which is unbound (\<open>None\<close>) until
  the first iteration assigns it and keeps its last value after the loop, also after
  \<open>break\<close>.
\<close>

fun paginate_loop ::
  "int \<Rightarrow> int \<Rightarrow> int \<Rightarrow> ObjectId list \<Rightarrow>
   ObjectId \<times> (ObjectId \<times> ObjectId) list \<times> ObjectId option \<Rightarrow>
   ObjectId \<times> (ObjectId \<times> ObjectId) list \<times> ObjectId option" where
  "paginate_loop nrows chunksize idx [] st = st"
| "paginate_loop nrows chunksize idx (d # cursor) (prev_id, partitions_ids, doc) =
     (if idx \<ge> nrows then (prev_id, partitions_ids, Some d)
      else if idx mod chunksize = 0 \<and> idx > 0
        then paginate_loop nrows chunksize (idx + 1) cursor
               (d, partitions_ids @ [(prev_id, d)], Some d)
        else paginate_loop nrows chunksize (idx + 1) cursor
               (prev_id, partitions_ids, Some d))"

text \<open>The branch \<open>if paginate_partition_ids:\<close> of \<open>read_mongo\<close>.\<close>

definition paginate_ids ::
  "collection \<Rightarrow> match_filter \<Rightarrow> int \<Rightarrow> int \<Rightarrow> error + (ObjectId \<times> ObjectId) list" where
  "paginate_ids coll m nrows chunksize =
     (case subscript_id (find_one_sorted coll) of
        Inl e \<Rightarrow> Inl e
      | Inr first_id \<Rightarrow>
          (case paginate_loop nrows chunksize 0 (find_sorted_ids coll m) (first_id, [], None) of
             (prev_id, partitions_ids, doc) \<Rightarrow>
               if truthy prev_id then
                 (case doc of
                    None \<Rightarrow> Inl UnboundLocalError
                  | Some max_id \<Rightarrow> Inr (partitions_ids @ [(prev_id, max_id)]))
               else Inr partitions_ids))"

text \<open>
  One task of the graph: the arguments that \<open>fetch_mongo\<close> receives after the common ones.
\<close>

record task =
  task_id_min :: ObjectId
  task_id_max :: ObjectId
  task_include_last :: bool

text \<open>
  The bag returned by \<open>read_mongo\<close>: the tasks in the order of their key \<open>(name, i)\<close>, and the
  declared number of partitions. The graph name, a digest of the fixed inputs, is left out.
\<close>

record bag =
  bag_dsk :: "task list"
  bag_npartitions :: nat

definition make_dsk :: "(ObjectId \<times> ObjectId) list \<Rightarrow> task list" where
  "make_dsk partitions_ids =
     map (\<lambda>(i, p). \<lparr>task_id_min = fst p, task_id_max = snd p,
                     task_include_last = (int i = int (length partitions_ids) - 1)\<rparr>)
         (enumerate 0 partitions_ids)"

text \<open>The row count: the metadata estimate, or the exact count of the matched documents.\<close>

definition count_rows :: "collection \<Rightarrow> match_filter \<Rightarrow> bool \<Rightarrow> error + int" where
  "count_rows coll m use_estimated_count =
     (if use_estimated_count then Inr (int (estimated_document_count coll))
      else (case py_next (count_stage (match_stage m (docs coll))) of
              Inl e \<Rightarrow> Inl e
            | Inr n \<Rightarrow> Inr (int n)))"

text \<open>
  \<open>read_mongo\<close> from the line that selects the collection on. Before it, the defaults are
  filled in (an absent filter is \<open>match_all\<close>) and the client is taken from the connection
  cache below, which raises \<open>TypeError\<close> for an unhashable configuration before anything
  here runs. The row count is taken, the number of partitions is computed (on either
  strategy), the descriptors are planned by the chosen strategy, and one task is built for
  each descriptor.
\<close>

definition read_mongo ::
  "collection \<Rightarrow> int \<Rightarrow> match_filter \<Rightarrow> bool \<Rightarrow> bool \<Rightarrow> error + bag" where
  "read_mongo coll chunksize m use_estimated_count paginate_partition_ids =
     (case count_rows coll m use_estimated_count of
        Inl e \<Rightarrow> Inl e
      | Inr nrows \<Rightarrow>
          (case ceil_div nrows chunksize of
             Inl e \<Rightarrow> Inl e
           | Inr npartitions \<Rightarrow>
               (case (if paginate_partition_ids then paginate_ids coll m nrows chunksize
                      else bucket_auto coll (find_sorted_ids coll m) npartitions) of
                  Inl e \<Rightarrow> Inl e
                | Inr partitions_ids \<Rightarrow>
                    Inr \<lparr>bag_dsk = make_dsk partitions_ids,
                         bag_npartitions = length partitions_ids\<rparr>)))"

text \<open>Computing the bag runs every task and concatenates the partitions in order.\<close>

definition run_task :: "collection \<Rightarrow> match_filter \<Rightarrow> task \<Rightarrow> document list" where
  "run_task coll m t = fetch_mongo coll m (task_id_min t) (task_id_max t) (task_include_last t)"

definition compute :: "collection \<Rightarrow> match_filter \<Rightarrow> bag \<Rightarrow> document list" where
  "compute coll m b = concat (map (run_task coll m) (bag_dsk b))"

section \<open>The write fan-out\<close>

text \<open>
  A document handed to the writer is a dictionary object: its \<open>_id\<close> entry, if it has one,
  and its other entries.
\<close>

record pydoc =
  py_id :: "ObjectId option"
  py_fields :: "(string \<times> bson) list"

text \<open>
  What the writer acts on: the heap of dictionary objects, addressed by position, so that a
  list of documents is a list of addresses and aliasing is visible; the target collection on
  the server; the calls of \<open>insert_many\<close> made so far, each with its argument; and the source
  of new \<open>ObjectId\<close>s, as the sequence of identifiers it hands out and the number already
  handed out.
\<close>

record store =
  heap :: "pydoc list"
  target :: collection
  insert_many_calls :: "nat list list"
  new_oid :: "nat \<Rightarrow> ObjectId"
  oids_made :: nat

text \<open>
  \<open>copy(v)\<close> allocates a new dictionary with the entries of \<open>v\<close>;
  \<open>[copy(v) for v in values]\<close> does so for each element in turn.
\<close>

definition copy_doc :: "nat \<Rightarrow> store \<Rightarrow> nat \<times> store" where
  "copy_doc v s = (length (heap s), s\<lparr>heap := heap s @ [heap s ! v]\<rparr>)"

fun copy_all :: "nat list \<Rightarrow> store \<Rightarrow> nat list \<times> store" where
  "copy_all [] s = ([], s)"
| "copy_all (v # values) s =
     (case copy_doc v s of
        (a, s1) \<Rightarrow> (case copy_all values s1 of (as, s2) \<Rightarrow> (a # as, s2)))"

text \<open>
  \<open>insert_many\<close> of the driver. It rejects an empty list with \<open>TypeError\<close>. Otherwise it
  first walks the documents and stores a new \<open>ObjectId\<close> under \<open>_id\<close> in every document
  that has none, in place; then the server inserts the documents in order and stops at the
  first identifier that the collection already holds.
\<close>

definition ObjectId_new :: "store \<Rightarrow> ObjectId \<times> store" where
  "ObjectId_new s = (new_oid s (oids_made s), s\<lparr>oids_made := oids_made s + 1\<rparr>)"

fun assign_ids :: "nat list \<Rightarrow> store \<Rightarrow> document list \<times> store" where
  "assign_ids [] s = ([], s)"
| "assign_ids (a # documents) s =
     (case py_id (heap s ! a) of
        Some i \<Rightarrow>
          (case assign_ids documents s of
             (ds, s') \<Rightarrow> (\<lparr>doc_id = i, doc_fields = py_fields (heap s ! a)\<rparr> # ds, s'))
      | None \<Rightarrow>
          (case ObjectId_new s of
             (i, s1) \<Rightarrow>
               (case assign_ids documents
                       (s1\<lparr>heap := (heap s1)[a := (heap s1 ! a)\<lparr>py_id := Some i\<rparr>]\<rparr>) of
                  (ds, s') \<Rightarrow> (\<lparr>doc_id = i, doc_fields = py_fields (heap s ! a)\<rparr> # ds, s'))))"

fun server_insert :: "document list \<Rightarrow> collection \<Rightarrow> (error + unit) \<times> collection" where
  "server_insert [] coll = (Inr (), coll)"
| "server_insert (d # ds) coll =
     (if doc_id d \<in> doc_id ` set (docs coll) then (Inl BulkWriteError, coll)
      else server_insert ds
             (coll\<lparr>docs := docs coll @ [d],
                   estimated_document_count := estimated_document_count coll + 1\<rparr>))"

definition insert_many :: "nat list \<Rightarrow> store \<Rightarrow> (error + unit) \<times> store" where
  "insert_many documents s =
     (let s0 = s\<lparr>insert_many_calls := insert_many_calls s @ [documents]\<rparr> in
      if documents = [] then (Inl TypeError, s0)
      else (case assign_ids documents s0 of
              (ds, s1) \<Rightarrow>
                (case server_insert ds (target s1) of
                   (r, coll) \<Rightarrow> (r, s1\<lparr>target := coll\<rparr>))))"

text \<open>
  \<open>write_mongo\<close> from the line that selects the collection on (the client comes from the
  connection cache below): the copies are made, and \<open>insert_many\<close> is called on them
  whatever their number.
\<close>

definition write_mongo :: "nat list \<Rightarrow> store \<Rightarrow> (error + unit) \<times> store" where
  "write_mongo values s =
     (case copy_all values s of (copies, s1) \<Rightarrow> insert_many copies s1)"

text \<open>
  \<open>to_mongo\<close>: \<open>write_mongo\<close> is mapped over the partitions of the bag, each a list of
  documents. With \<open>compute\<close> set the graph is run, here partition after partition, and the
  first exception ends the run; otherwise nothing runs yet.
\<close>

fun map_partitions :: "nat list list \<Rightarrow> store \<Rightarrow> (error + unit) \<times> store" where
  "map_partitions [] s = (Inr (), s)"
| "map_partitions (values # partitions) s =
     (case write_mongo values s of
        (Inl e, s1) \<Rightarrow> (Inl e, s1)
      | (Inr u, s1) \<Rightarrow> map_partitions partitions s1)"

definition to_mongo :: "nat list list \<Rightarrow> bool \<Rightarrow> store \<Rightarrow> (error + unit) \<times> store" where
  "to_mongo bag compute_now s = (if compute_now then map_partitions bag s else (Inr (), s))"

section \<open>The connection cache\<close>

text \<open>
  The values that a connection configuration is built from. A float is kept by its exact
  value; a mapping is its list of items in insertion order.
\<close>

datatype pyval =
    PNone
  | PBool bool
  | PInt int
  | PFloat rat
  | PStr string
  | PList "pyval list"
  | PTuple "pyval list"
  | PDict "(pyval \<times> pyval) list"

text \<open>
  \<open>_recursive_tupling\<close>: lists and mappings become tuples, anything else (a tuple
  included) is returned as it is.
\<close>

fun recursive_tupling :: "pyval \<Rightarrow> pyval" where
  "recursive_tupling (PList items) = PTuple (map recursive_tupling items)"
| "recursive_tupling (PDict items) =
     PTuple (map (\<lambda>(k, v). PTuple [recursive_tupling k, recursive_tupling v]) items)"
| "recursive_tupling item = item"

text \<open>
  Python's \<open>==\<close> on these values, through a normal form: numbers of any type compare by
  value, a list never equals a tuple, and two mappings are equal when they hold the same
  items, in any order.
\<close>

datatype canon =
    CNone
  | CNum rat
  | CStr string
  | CList "canon list"
  | CTuple "canon list"
  | CDict "(canon \<times> canon) fset"

fun canon_of :: "pyval \<Rightarrow> canon" where
  "canon_of PNone = CNone"
| "canon_of (PBool b) = CNum (if b then 1 else 0)"
| "canon_of (PInt i) = CNum (of_int i)"
| "canon_of (PFloat q) = CNum q"
| "canon_of (PStr s) = CStr s"
| "canon_of (PList xs) = CList (map canon_of xs)"
| "canon_of (PTuple xs) = CTuple (map canon_of xs)"
| "canon_of (PDict items) = CDict (fset_of_list (map (\<lambda>(k, v). (canon_of k, canon_of v)) items))"

definition py_eq :: "pyval \<Rightarrow> pyval \<Rightarrow> bool" where
  "py_eq a b = (canon_of a = canon_of b)"

text \<open>
  Python's \<open>hash\<close>. Lists and mappings are unhashable, also inside a tuple. The hash of a
  hashable value is modelled up to collisions by the normal form of the value, so that
  values that compare equal have equal hashes; no result below depends on two hashes being
  different.
\<close>

fun hashable :: "pyval \<Rightarrow> bool" where
  "hashable (PList xs) = False"
| "hashable (PDict items) = False"
| "hashable (PTuple xs) = list_all hashable xs"
| "hashable v = True"

definition py_hash :: "pyval \<Rightarrow> error + canon" where
  "py_hash v = (if hashable v then Inr (canon_of v) else Inl TypeError)"

text \<open>
  Hashing the elements from which a \<open>frozenset\<close> is built, stopping at the first
  unhashable one.
\<close>

fun hash_all :: "pyval list \<Rightarrow> error + canon list" where
  "hash_all [] = Inr []"
| "hash_all (v # vs) =
     (case py_hash v of
        Inl e \<Rightarrow> Inl e
      | Inr h \<Rightarrow> (case hash_all vs of Inl e \<Rightarrow> Inl e | Inr hs \<Rightarrow> Inr (h # hs)))"

text \<open>
  \<open>_FrozenKwargs\<close>, a \<open>dict\<close> subclass that only defines \<open>__hash__\<close>: the hash of the
  frozen set of the tupled items, which does not depend on their order. Equality is the one
  inherited from \<open>dict\<close>.
\<close>

datatype frozen_kwargs = FrozenKwargs "(pyval \<times> pyval) list"

fun kwargs_items :: "frozen_kwargs \<Rightarrow> (pyval \<times> pyval) list" where
  "kwargs_items (FrozenKwargs items) = items"

definition FrozenKwargs_hash :: "frozen_kwargs \<Rightarrow> error + canon set" where
  "FrozenKwargs_hash self =
     (case hash_all (map (\<lambda>(k, v). PTuple [recursive_tupling k, recursive_tupling v])
                         (kwargs_items self)) of
        Inl e \<Rightarrow> Inl e
      | Inr hs \<Rightarrow> Inr (set hs))"

definition FrozenKwargs_eq :: "frozen_kwargs \<Rightarrow> frozen_kwargs \<Rightarrow> bool" where
  "FrozenKwargs_eq a b = py_eq (PDict (kwargs_items a)) (PDict (kwargs_items b))"

text \<open>
  The key that \<open>lru_cache(_CACHE_SIZE, typed=True)\<close> makes of the call: the argument
  followed, when \<open>typed\<close> is set, by the type of the argument itself. \<open>_get_client\<close> always
  passes a \<open>_FrozenKwargs\<close>.
\<close>

datatype pytype = T_FrozenKwargs

definition type_of :: "frozen_kwargs \<Rightarrow> pytype" where
  "type_of a = T_FrozenKwargs"

type_synonym lru_key = "frozen_kwargs \<times> pytype list"

definition make_key :: "frozen_kwargs \<Rightarrow> bool \<Rightarrow> lru_key" where
  "make_key arg typed = (arg, if typed then [type_of arg] else [])"

definition key_hash :: "lru_key \<Rightarrow> error + canon set \<times> pytype list" where
  "key_hash key =
     (case FrozenKwargs_hash (fst key) of Inl e \<Rightarrow> Inl e | Inr h \<Rightarrow> Inr (h, snd key))"

definition key_eq :: "lru_key \<Rightarrow> lru_key \<Rightarrow> bool" where
  "key_eq a b = (FrozenKwargs_eq (fst a) (fst b) \<and> snd a = snd b)"

text \<open>
  The state of the process: the cache entries from least to most recently used, the
  callables registered with \<open>atexit\<close>, the number of clients opened so far (clients are
  numbered in the order of their creation), and the clients on which \<open>close\<close> has run.
  A callable is the bound method \<open>client.close\<close> or a \<open>weakref.WeakMethod\<close> around a
  callable.
\<close>

type_synonym client = nat

datatype callable = BoundClose client | WeakMethod callable

record process =
  cache :: "(lru_key \<times> client) list"
  exitfuncs :: "callable list"
  opened :: nat
  closed_clients :: "client list"

definition CACHE_SIZE :: nat where
  "CACHE_SIZE = 16"

definition fresh_process :: process where
  "fresh_process = \<lparr>cache = [], exitfuncs = [], opened = 0, closed_clients = []\<rparr>"

text \<open>
  \<open>pymongo.MongoClient(appname=appname, **kwargs)\<close>: the call raises \<open>TypeError\<close> when a
  keyword is not a string or when \<open>appname\<close> is given twice; otherwise a new client is
  opened.
\<close>

definition appname_key :: pyval where
  "appname_key = PStr ''appname''"

fun is_str :: "pyval \<Rightarrow> bool" where
  "is_str (PStr s) = True"
| "is_str v = False"

definition MongoClient :: "frozen_kwargs \<Rightarrow> process \<Rightarrow> (error + client) \<times> process" where
  "MongoClient kwargs p =
     (if \<not> list_all is_str (map fst (kwargs_items kwargs)) then (Inl TypeError, p)
      else if appname_key \<in> set (map fst (kwargs_items kwargs)) then (Inl TypeError, p)
      else (Inr (opened p), p\<lparr>opened := opened p + 1\<rparr>))"

text \<open>
  The body of \<open>_cache_inner\<close>: open the client and register
  \<open>weakref.WeakMethod(client.close)\<close> with \<open>atexit\<close>.
\<close>

definition atexit_register :: "callable \<Rightarrow> process \<Rightarrow> process" where
  "atexit_register f p = p\<lparr>exitfuncs := exitfuncs p @ [f]\<rparr>"

definition cache_inner_body :: "frozen_kwargs \<Rightarrow> process \<Rightarrow> (error + client) \<times> process" where
  "cache_inner_body kwargs p =
     (case MongoClient kwargs p of
        (Inl e, p') \<Rightarrow> (Inl e, p')
      | (Inr client, p') \<Rightarrow> (Inr client, atexit_register (WeakMethod (BoundClose client)) p'))"

text \<open>
  \<open>_cache_inner\<close> as decorated. An entry answers a key when its hash is the hash of the key
  and the two compare equal. A hit moves the entry to the most recently used end; a miss runs
  the body and, unless it raised, stores the result, dropping the least recently used entry
  when the cache already holds \<open>_CACHE_SIZE\<close> of them.
\<close>

definition hit :: "canon set \<times> pytype list \<Rightarrow> lru_key \<Rightarrow> lru_key \<times> client \<Rightarrow> bool" where
  "hit h key entry = (key_hash (fst entry) = Inr h \<and> key_eq (fst entry) key)"

definition cache_inner :: "frozen_kwargs \<Rightarrow> process \<Rightarrow> (error + client) \<times> process" where
  "cache_inner kwargs p =
     (let key = make_key kwargs True in
      case key_hash key of
        Inl e \<Rightarrow> (Inl e, p)
      | Inr h \<Rightarrow>
          (case find (hit h key) (cache p) of
             Some entry \<Rightarrow>
               (Inr (snd entry), p\<lparr>cache := remove1 entry (cache p) @ [entry]\<rparr>)
           | None \<Rightarrow>
               (case cache_inner_body kwargs p of
                  (Inl e, p') \<Rightarrow> (Inl e, p')
                | (Inr client, p') \<Rightarrow>
                    (Inr client,
                     p'\<lparr>cache := (if length (cache p') \<ge> CACHE_SIZE then tl (cache p') else cache p')
                                    @ [(key, client)]\<rparr>))))"

text \<open>
  \<open>_clear_cache\<close>, registered to run in a forked child, and \<open>_get_client\<close>.
\<close>

definition clear_cache :: "process \<Rightarrow> process" where
  "clear_cache p = p\<lparr>cache := []\<rparr>"

definition get_client :: "(pyval \<times> pyval) list \<Rightarrow> process \<Rightarrow> (error + client) \<times> process" where
  "get_client kwargs p = cache_inner (FrozenKwargs kwargs) p"

text \<open>
  At exit the registered callables are called without arguments, last registered first.
  Calling the bound method closes the client. Calling a \<open>WeakMethod\<close> returns the method it
  refers to (or \<open>None\<close>) and calls nothing.
\<close>

fun call :: "callable \<Rightarrow> process \<Rightarrow> process" where
  "call (BoundClose c) p = p\<lparr>closed_clients := closed_clients p @ [c]\<rparr>"
| "call (WeakMethod f) p = p"

definition run_exitfuncs :: "process \<Rightarrow> process" where
  "run_exitfuncs p = fold call (rev (exitfuncs p)) p"

section \<open>Notions used in the statements\<close>

text \<open>The identifier-range filter that the fetch of a task applies after the match filter.\<close>

definition task_filter :: "task \<Rightarrow> match_filter" where
  "task_filter t = match2 (task_id_min t) (task_id_max t) (task_include_last t)"



text \<open>The tasks built from a descriptor that is not the last one, and from the last one.\<close>

definition open_task :: "ObjectId \<times> ObjectId \<Rightarrow> task" where
  "open_task p = \<lparr>task_id_min = fst p, task_id_max = snd p, task_include_last = False\<rparr>"

definition closed_task :: "ObjectId \<times> ObjectId \<Rightarrow> task" where
  "closed_task p = \<lparr>task_id_min = fst p, task_id_max = snd p, task_include_last = True\<rparr>"

text \<open>
  The identifiers at which the paginated scan closes a descriptor: the elements of the
  cursor whose index, counted from \<open>idx\<close>, is a positive multiple of the chunk size.
\<close>

definition bnds :: "int \<Rightarrow> nat \<Rightarrow> ObjectId list \<Rightarrow> ObjectId list" where
  "bnds c idx cursor = map snd (filter (\<lambda>(j, d). int j mod c = 0 \<and> j > 0) (enumerate idx cursor))"

text \<open>
  The entries of a cache answer different keys: a dictionary never holds two equal keys.
\<close>

definition cache_ok :: "process \<Rightarrow> bool" where
  "cache_ok p =
     (\<forall>e \<in> set (cache p). \<forall>e' \<in> set (cache p).
        key_hash (fst e) = key_hash (fst e') \<and> key_eq (fst e) (fst e') \<longrightarrow> e = e')"

section \<open>Examples\<close>

text \<open>
  Three documents stored out of identifier order, with accurate metadata, on a server that
  answers \<open>$bucketAuto\<close> with a single bucket; and an empty collection.
\<close>

abbreviation three_docs :: collection where
  "three_docs \<equiv>
     \<lparr>docs = [\<lparr>doc_id = 2, doc_fields = []\<rparr>, \<lparr>doc_id = 1, doc_fields = []\<rparr>,
              \<lparr>doc_id = 3, doc_fields = []\<rparr>],
      estimated_document_count = 3,
      bucket_auto = (\<lambda>ids k. Inr [(hd ids, last ids)])\<rparr>"

abbreviation no_docs :: collection where
  "no_docs \<equiv>
     \<lparr>docs = [], estimated_document_count = 0, bucket_auto = (\<lambda>ids k. Inr [])\<rparr>"


abbreviation stale_two :: collection where
  "stale_two \<equiv>
     \<lparr>docs = [\<lparr>doc_id = 2, doc_fields = []\<rparr>, \<lparr>doc_id = 1, doc_fields = []\<rparr>,
              \<lparr>doc_id = 3, doc_fields = []\<rparr>],
      estimated_document_count = 2,
      bucket_auto = (\<lambda>ids k. Inr [(hd ids, last ids)])\<rparr>"

text \<open>
  Requesting a client for each configuration of a list in turn, and seventeen configurations
  that differ in their port.
\<close>

definition get_clients :: "(pyval \<times> pyval) list list \<Rightarrow> process \<Rightarrow> process" where
  "get_clients kws p = foldl (\<lambda>p kwargs. snd (get_client kwargs p)) p kws"

definition seventeen :: "(pyval \<times> pyval) list list" where
  "seventeen = map (\<lambda>i. [(PStr ''port'', PInt i)])
     [1, 2, 3, 4, 5, 6, 7, 8, 9, 10, 11, 12, 13, 14, 15, 16, 17]"

text \<open>
  A store with an empty heap and an empty target collection, and one with three documents
  that have no identifier yet.
\<close>

abbreviation empty_store :: store where
  "empty_store \<equiv>
     \<lparr>heap = [], target = no_docs, insert_many_calls = [],
      new_oid = (\<lambda>n. of_nat n + 1), oids_made = 0\<rparr>"

abbreviation three_values :: store where
  "three_values \<equiv>
     \<lparr>heap = [\<lparr>py_id = None, py_fields = [(''x'', BInt 10)]\<rparr>,
              \<lparr>py_id = None, py_fields = [(''x'', BInt 20)]\<rparr>,
              \<lparr>py_id = None, py_fields = [(''x'', BInt 30)]\<rparr>],
      target = no_docs, insert_many_calls = [],
      new_oid = (\<lambda>n. of_nat n + 1), oids_made = 0\<rparr>"

section \<open>The paginated scan in closed form\<close>

lemma bnds_Nil: "bnds c idx [] = []" by (simp add: bnds_def)
lemma bnds_Cons: "bnds c idx (d # ds) = (if int idx mod c = 0 \<and> idx > 0 then d # bnds c (Suc idx) ds else bnds c (Suc idx) ds)"
  by (simp add: bnds_def)

lemma paginate_loop_closed:
  "int idx + int (length cursor) \<le> nrows \<Longrightarrow>
   paginate_loop nrows c (int idx) cursor (prev, ps, doc) =
     (last (prev # bnds c idx cursor), ps @ zip (prev # bnds c idx cursor) (bnds c idx cursor),
      if cursor = [] then doc else Some (last cursor))"
proof (induction cursor arbitrary: idx prev ps doc)
  case Nil
  then show ?case by (simp add: bnds_Nil)
next
  case (Cons d ds)
  have le: "int (Suc idx) + int (length ds) \<le> nrows" using Cons.prems by simp
  have nb: "\<not> nrows \<le> int idx" using Cons.prems by simp
  have s: "int idx + 1 = int (Suc idx)" by simp
  show ?case
  proof (cases "int idx mod c = 0 \<and> idx > 0")
    case True
    then have step: "paginate_loop nrows c (int idx) (d # ds) (prev, ps, doc) =
               paginate_loop nrows c (int (Suc idx)) ds (d, ps @ [(prev, d)], Some d)"
      using nb by (auto simp add: s simp del: of_nat_Suc)
    have b: "bnds c idx (d # ds) = d # bnds c (Suc idx) ds"
      using True by (simp add: bnds_Cons)
    show ?thesis unfolding step b Cons.IH[OF le] by simp
  next
    case False
    then have step: "paginate_loop nrows c (int idx) (d # ds) (prev, ps, doc) =
               paginate_loop nrows c (int (Suc idx)) ds (prev, ps, Some d)"
      using nb by (auto simp add: s simp del: of_nat_Suc)
    have b: "bnds c idx (d # ds) = bnds c (Suc idx) ds"
      using False by (simp add: bnds_Cons)
    show ?thesis unfolding step b Cons.IH[OF le] by simp
  qed
qed

lemma map_snd_filter_zip_upt:
  "map snd (filter (\<lambda>(j, d). P j) (zip [0..<length xs] xs)) = map (nth xs) (filter P [0..<length xs])"
proof (induction xs rule: rev_induct)
  case Nil
  show ?case by simp
next
  case (snoc x xs)
  have "map ((!) (xs @ [x])) (filter P [0..<length xs]) = map ((!) xs) (filter P [0..<length xs])"
    by (rule map_cong) (auto simp: nth_append)
  then show ?case using snoc by (simp add: nth_append)
qed

lemma bnds_nth: "bnds c 0 ids = map (nth ids) (filter (\<lambda>j. int j mod c = 0 \<and> j > 0) [0..<length ids])"
  unfolding bnds_def enumerate_eq_zip using map_snd_filter_zip_upt[of "\<lambda>j. int j mod c = 0 \<and> j > 0" ids]
  by simp

lemma int_mod_nat: "0 < c \<Longrightarrow> (int j mod c = 0) = (j mod nat c = 0)"
proof -
  assume c: "0 < c"
  have "int (j mod nat c) = int j mod int (nat c)" by (simp add: zmod_int)
  also have "int (nat c) = c" using c by simp
  finally have "int (j mod nat c) = int j mod c" .
  then show ?thesis by (metis of_nat_eq_0_iff)
qed

lemma multiples_set:
  assumes c: "0 < (k::nat)"
  shows "(j < n \<and> j mod k = 0 \<and> 0 < j) = (\<exists>i. i < (n - 1) div k \<and> j = (i + 1) * k)"
proof
  assume a: "j < n \<and> j mod k = 0 \<and> 0 < j"
  define q where "q = j div k"
  have q: "j = q * k" using a by (simp add: q_def mod_eq_0_iff_dvd)
  have q0: "0 < q" using a q by (cases q) auto
  have "j < n" using a by simp
  then have "j \<le> n - 1" by linarith
  then have "q * k \<le> n - 1" using q by simp
  then have "q \<le> (n - 1) div k" using c by (simp add: less_eq_div_iff_mult_less_eq)
  then have "q - 1 < (n - 1) div k" using q0 by simp
  moreover have "j = (q - 1 + 1) * k" using q q0 by simp
  ultimately show "\<exists>i. i < (n - 1) div k \<and> j = (i + 1) * k" by blast
next
  assume "\<exists>i. i < (n - 1) div k \<and> j = (i + 1) * k"
  then obtain i where i: "i < (n - 1) div k" "j = (i + 1) * k" by blast
  then have "i + 1 \<le> (n - 1) div k" by simp
  then have le: "(i + 1) * k \<le> n - 1" using c by (simp add: less_eq_div_iff_mult_less_eq)
  have pos: "0 < (i + 1) * k" using c by simp
  have "j < n" using le pos i(2) by linarith
  moreover have "j mod k = 0" using i(2) by simp
  ultimately show "j < n \<and> j mod k = 0 \<and> 0 < j" using pos i(2) by simp
qed


lemma multiples_upt:
  assumes "0 < c"
  shows "filter (\<lambda>j. int j mod c = 0 \<and> j > 0) [0..<n] = map (\<lambda>i. (i + 1) * nat c) [0..<(n - 1) div nat c]"
proof (rule sorted_distinct_set_unique)
  let ?c = "nat c"
  have c: "0 < ?c" using assms by simp
  show "sorted (filter (\<lambda>j. int j mod c = 0 \<and> j > 0) [0..<n])"
    by (rule sorted_wrt_filter) simp
  show "distinct (filter (\<lambda>j. int j mod c = 0 \<and> j > 0) [0..<n])" by simp
  have "sorted_wrt (\<lambda>x y. (x + 1) * ?c \<le> (y + 1) * ?c) [0..<(n - 1) div ?c]"
    by (rule sorted_wrt_mono_rel[where P = "(\<le>)"]) auto
  then show "sorted (map (\<lambda>i. (i + 1) * nat c) [0..<(n - 1) div nat c])"
    by (simp add: sorted_map)
  show "distinct (map (\<lambda>i. (i + 1) * nat c) [0..<(n - 1) div nat c])"
    using c by (auto simp: distinct_map inj_on_def)
  show "set (filter (\<lambda>j. int j mod c = 0 \<and> j > 0) [0..<n]) = set (map (\<lambda>i. (i + 1) * nat c) [0..<(n - 1) div nat c])"
  proof (rule set_eqI)
    fix j
    have "j \<in> set (filter (\<lambda>j. int j mod c = 0 \<and> j > 0) [0..<n]) \<longleftrightarrow> (j < n \<and> j mod ?c = 0 \<and> 0 < j)"
      using assms by (auto simp: int_mod_nat)
    also have "\<dots> \<longleftrightarrow> (\<exists>i. i < (n - 1) div ?c \<and> j = (i + 1) * ?c)"
      by (rule multiples_set[OF c])
    also have "\<dots> \<longleftrightarrow> j \<in> set (map (\<lambda>i. (i + 1) * nat c) [0..<(n - 1) div nat c])"
      by auto
    finally show "j \<in> set (filter (\<lambda>j. int j mod c = 0 \<and> j > 0) [0..<n]) \<longleftrightarrow> j \<in> set (map (\<lambda>i. (i + 1) * nat c) [0..<(n - 1) div nat c])" .
  qed
qed

lemma bnds_closed:
  assumes "0 < c"
  shows "bnds c 0 ids = map (\<lambda>i. ids ! ((i + 1) * nat c)) [0..<(length ids - 1) div nat c]"
  by (simp add: bnds_nth multiples_upt[OF assms] comp_def)

lemma find_sorted_ids_props:
  "sorted (find_sorted_ids coll m)"
  "mset (find_sorted_ids coll m) = mset (map doc_id (match_stage m (docs coll)))"
  "set (find_sorted_ids coll m) = doc_id ` set (match_stage m (docs coll))"
  "length (find_sorted_ids coll m) = length (match_stage m (docs coll))"
  by (simp_all add: find_sorted_ids_def)






section \<open>Counting the identifiers of a range\<close>

lemma filter_as_positions:
  "length (filter P xs) = length (filter (\<lambda>p. P (xs ! p)) [0..<length xs])"
proof -
  have "filter P (map (nth xs) [0..<length xs]) = map (nth xs) (filter (P \<circ> nth xs) [0..<length xs])"
    by (simp only: filter_map)
  then have "length (filter P (map (nth xs) [0..<length xs])) = length (filter (P \<circ> nth xs) [0..<length xs])"
    by simp
  then show ?thesis by (simp add: map_nth comp_def)
qed

lemma length_filter_interval:
  "b \<le> n \<Longrightarrow> length (filter (\<lambda>p. a \<le> p \<and> p < b) [0..<n]) = b - a"
proof (induction n arbitrary: b)
  case 0
  then show ?case by simp
next
  case (Suc n)
  show ?case
  proof (cases "b \<le> n")
    case True
    then show ?thesis using Suc.IH by auto
  next
    case False
    then have b: "b = Suc n" using Suc.prems by simp
    have "filter (\<lambda>p. a \<le> p \<and> p < Suc n) [0..<n] = filter (\<lambda>p. a \<le> p \<and> p < n) [0..<n]"
      by (rule filter_cong) auto
    then have "length (filter (\<lambda>p. a \<le> p \<and> p < Suc n) [0..<n]) = n - a"
      using Suc.IH[of n] by simp
    then show ?thesis unfolding b by auto
  qed
qed

lemma strict_nth_less:
  assumes "sorted xs" "distinct xs" "p < length xs" "q < length xs"
  shows "(xs ! p < xs ! q) = (p < q)"
proof -
  have s: "sorted_wrt (<) xs" using assms by (simp add: strict_sorted_iff)
  show ?thesis
  proof
    assume lt: "xs ! p < xs ! q"
    show "p < q"
    proof (rule ccontr)
      assume "\<not> p < q"
      then have "q \<le> p" by simp
      then have "xs ! q \<le> xs ! p" using assms by (simp add: sorted_nth_mono)
      with lt show False by simp
    qed
  next
    assume "p < q"
    then show "xs ! p < xs ! q" using s assms by (simp add: sorted_wrt_nth_less)
  qed
qed

lemma strict_nth_le:
  assumes "sorted xs" "distinct xs" "p < length xs" "q < length xs"
  shows "(xs ! p \<le> xs ! q) = (p \<le> q)"
  using strict_nth_less[OF assms(1,2,4,3)] by (simp add: not_less[symmetric])

lemma count_range_open:
  assumes "sorted xs" "distinct xs" "b < length xs"
    and lo: "\<And>p. p < length xs \<Longrightarrow> (lo \<le> xs ! p) = (a \<le> p)"
  shows "length (filter (\<lambda>x. lo \<le> x \<and> x < xs ! b) xs) = b - a"
proof -
  have "filter (\<lambda>p. lo \<le> xs ! p \<and> xs ! p < xs ! b) [0..<length xs]
        = filter (\<lambda>p. a \<le> p \<and> p < b) [0..<length xs]"
    by (rule filter_cong) (auto simp: lo strict_nth_less[OF assms(1,2) _ assms(3)])
  then show ?thesis
    using length_filter_interval[of b "length xs" a] assms(3)
    by (simp add: filter_as_positions[of _ xs])
qed

lemma count_range_closed:
  assumes "sorted xs" "distinct xs" "xs \<noteq> []"
    and lo: "\<And>p. p < length xs \<Longrightarrow> (lo \<le> xs ! p) = (a \<le> p)"
  shows "length (filter (\<lambda>x. lo \<le> x \<and> x \<le> last xs) xs) = length xs - a"
proof -
  have top: "xs ! p \<le> last xs" if "p < length xs" for p
  proof -
    have "xs ! p \<le> xs ! (length xs - 1)"
      using assms(1) that by (intro sorted_nth_mono) auto
    then show ?thesis using assms(3) by (simp add: last_conv_nth)
  qed
  have "filter (\<lambda>p. lo \<le> xs ! p \<and> xs ! p \<le> last xs) [0..<length xs]
        = filter (\<lambda>p. a \<le> p \<and> p < length xs) [0..<length xs]"
    by (rule filter_cong) (auto simp: lo top)
  then show ?thesis
    using length_filter_interval[of "length xs" "length xs" a]
    by (simp add: filter_as_positions[of _ xs])
qed

lemma length_filter_mset_cong:
  "mset xs = mset ys \<Longrightarrow> length (filter P xs) = length (filter P ys)"
proof -
  assume "mset xs = mset ys"
  then have "size (filter_mset P (mset xs)) = size (filter_mset P (mset ys))" by simp
  then show ?thesis by (simp only: mset_filter[symmetric] size_mset)
qed

section \<open>Chains cover every identifier once\<close>

lemma make_dsk_snoc: "make_dsk (xs @ [x]) = map open_task xs @ [closed_task x]"
proof -
  let ?f = "\<lambda>(i, p). \<lparr>task_id_min = fst p, task_id_max = snd p,
                 task_include_last = (int i = int (length (xs @ [x])) - 1)\<rparr>"
  have "map ?f (enumerate 0 xs) = map (open_task \<circ> snd) (enumerate 0 xs)"
    by (rule map_cong) (auto simp: in_set_enumerate_eq open_task_def)
  also have "\<dots> = map open_task xs" by (simp flip: map_map)
  finally have a: "map ?f (enumerate 0 xs) = map open_task xs" .
  have "make_dsk (xs @ [x]) = map ?f (enumerate 0 xs) @ [?f (length xs, x)]"
    unfolding make_dsk_def by (simp add: enumerate_append_eq)
  then show ?thesis unfolding a by (simp add: closed_task_def)
qed



lemma task_filter_open: "task_filter (open_task p) d = (fst p \<le> doc_id d \<and> doc_id d < snd p)"
  by (simp add: task_filter_def open_task_def match2_def)

lemma task_filter_closed: "task_filter (closed_task p) d = (fst p \<le> doc_id d \<and> doc_id d \<le> snd p)"
  by (simp add: task_filter_def closed_task_def match2_def)





lemma find_one_least:
  assumes "docs coll \<noteq> []"
  shows "\<exists>f. subscript_id (find_one_sorted coll) = Inr f \<and> (\<forall>d \<in> set (docs coll). f \<le> doc_id d)"
proof -
  let ?s = "sort_key doc_id (docs coll)"
  have "length ?s = length (docs coll)" by simp
  then have "?s \<noteq> []" using assms by (metis length_0_conv)
  then obtain d0 rest where s: "?s = d0 # rest" by (cases ?s) auto
  have "sorted (map doc_id ?s)" by (rule sorted_sort_key)
  then have "\<forall>d \<in> set rest. doc_id d0 \<le> doc_id d" unfolding s by simp
  moreover have "set (docs coll) = set (d0 # rest)" using s by (metis set_sort)
  ultimately have "\<forall>d \<in> set (docs coll). doc_id d0 \<le> doc_id d" by auto
  moreover have "subscript_id (find_one_sorted coll) = Inr (doc_id d0)"
    by (simp add: subscript_id_def find_one_sorted_def s)
  ultimately show ?thesis by blast
qed

lemma zip_snoc_shift:
  "zip (f # B) B @ [(last (f # B), l)] = zip (f # B) (B @ [l])"
  by (induction B arbitrary: f) auto


lemma paginate_ids_result:
  assumes "find_sorted_ids coll m \<noteq> []" "int (length (find_sorted_ids coll m)) \<le> nrows"
  shows "\<exists>f. (\<forall>d \<in> set (docs coll). f \<le> doc_id d) \<and>
    paginate_ids coll m nrows c =
      Inr (zip (f # bnds c 0 (find_sorted_ids coll m))
               (bnds c 0 (find_sorted_ids coll m) @ [last (find_sorted_ids coll m)]))"
proof -
  let ?ids = "find_sorted_ids coll m"
  have "docs coll \<noteq> []" using assms(1) by (auto simp: find_sorted_ids_def match_stage_def)
  then obtain f where f: "subscript_id (find_one_sorted coll) = Inr f" "\<forall>d \<in> set (docs coll). f \<le> doc_id d"
    using find_one_least by blast
  have loop: "paginate_loop nrows c 0 ?ids (f, [], None) =
     (last (f # bnds c 0 ?ids), [] @ zip (f # bnds c 0 ?ids) (bnds c 0 ?ids),
      if ?ids = [] then None else Some (last ?ids))"
    using paginate_loop_closed[of 0 ?ids nrows c f "[]" None] assms(2) by simp
  have "paginate_ids coll m nrows c =
     Inr (zip (f # bnds c 0 ?ids) (bnds c 0 ?ids) @ [(last (f # bnds c 0 ?ids), last ?ids)])"
    unfolding paginate_ids_def f(1) using assms(1) by (simp add: loop truthy_def del: paginate_loop.simps)
  then have "paginate_ids coll m nrows c =
     Inr (zip (f # bnds c 0 ?ids) (bnds c 0 ?ids @ [last ?ids]))"
    by (simp only: zip_snoc_shift)
  with f(2) show ?thesis by blast
qed

lemma run_task_filter:
  "run_task coll m t = filter (task_filter t) (match_stage m (docs coll))"
  unfolding run_task_def fetch_mongo_def task_filter_def match_stage_def ..




lemma count_rows_ok:
  assumes "match_stage m (docs coll) \<noteq> []"
    and "use_est \<Longrightarrow> length (match_stage m (docs coll)) \<le> estimated_document_count coll"
  shows "\<exists>nrows. count_rows coll m use_est = Inr nrows \<and> int (length (match_stage m (docs coll))) \<le> nrows"
proof (cases use_est)
  case True
  then show ?thesis using assms(2) by (simp add: count_rows_def)
next
  case False
  then show ?thesis using assms(1)
    by (cases "match_stage m (docs coll)") (simp_all add: count_rows_def count_stage_def py_next_def)
qed







section \<open>The sizes of the paginated partitions\<close>

lemma run_task_count_open:
  "length (run_task coll m (open_task (lo, hi))) =
   length (filter (\<lambda>x. lo \<le> x \<and> x < hi) (find_sorted_ids coll m))"
proof -
  have "length (run_task coll m (open_task (lo, hi))) =
        length (filter ((\<lambda>x. lo \<le> x \<and> x < hi) \<circ> doc_id) (match_stage m (docs coll)))"
    unfolding run_task_filter
    by (rule arg_cong[where f = length], rule filter_cong) (simp_all add: task_filter_open)
  also have "\<dots> = length (filter (\<lambda>x. lo \<le> x \<and> x < hi) (map doc_id (match_stage m (docs coll))))"
    by (simp add: filter_map)
  also have "\<dots> = length (filter (\<lambda>x. lo \<le> x \<and> x < hi) (find_sorted_ids coll m))"
    by (rule length_filter_mset_cong) (simp add: find_sorted_ids_props(2))
  finally show ?thesis .
qed

lemma run_task_count_closed:
  "length (run_task coll m (closed_task (lo, hi))) =
   length (filter (\<lambda>x. lo \<le> x \<and> x \<le> hi) (find_sorted_ids coll m))"
proof -
  have "length (run_task coll m (closed_task (lo, hi))) =
        length (filter ((\<lambda>x. lo \<le> x \<and> x \<le> hi) \<circ> doc_id) (match_stage m (docs coll)))"
    unfolding run_task_filter
    by (rule arg_cong[where f = length], rule filter_cong) (simp_all add: task_filter_closed)
  also have "\<dots> = length (filter (\<lambda>x. lo \<le> x \<and> x \<le> hi) (map doc_id (match_stage m (docs coll))))"
    by (simp add: filter_map)
  also have "\<dots> = length (filter (\<lambda>x. lo \<le> x \<and> x \<le> hi) (find_sorted_ids coll m))"
    by (rule length_filter_mset_cong) (simp add: find_sorted_ids_props(2))
  finally show ?thesis .
qed

lemma ceiling_as_div:
  assumes "0 < (c::int)" "0 < (n::nat)"
  shows "\<lceil>real n / real_of_int c\<rceil> = int ((n - 1) div nat c) + 1"
proof -
  define q where "q = (int n - 1) div c"
  define r where "r = (int n - 1) mod c"
  have r: "0 \<le> r" "r < c" using assms by (simp_all add: r_def)
  have n: "int n - 1 = c * q + r" by (simp add: q_def r_def)
  have "- int n = c * (- q - 1) + (c - 1 - r)" using n by (simp add: algebra_simps)
  moreover have "0 \<le> c - 1 - r" "c - 1 - r < c" using r by simp_all
  ultimately have "(- int n) div c = - q - 1" by (rule int_div_pos_eq)
  then have "- ((- int n) div c) = q + 1" by simp
  moreover have "\<lceil>real n / real_of_int c\<rceil> = - ((- int n) div c)"
    using ceiling_divide_eq_div[of "int n" c] by simp
  moreover have "q = int ((n - 1) div nat c)"
    using assms by (simp add: q_def zdiv_int)
  ultimately show ?thesis by simp
qed

lemma lower_bound_positions:
  assumes "sorted ids" "distinct ids" "\<forall>x \<in> set ids. f \<le> x" "a = 0 \<or> a < length ids"
    and "p < length ids"
  shows "((if a = 0 then f else ids ! a) \<le> ids ! p) = (a \<le> p)"
proof (cases "a = 0")
  case True
  then show ?thesis using assms(3,5) by simp
next
  case False
  then have "a < length ids" using assms(4) by simp
  then show ?thesis using False strict_nth_le[OF assms(1,2) _ assms(5), of a] by simp
qed

lemma boundary_index:
  assumes "0 < (c::nat)" "0 < n" "i < (n - 1) div c"
  shows "(i + 1) * c < n"
proof -
  have "i + 1 \<le> (n - 1) div c" using assms(3) by simp
  then have "(i + 1) * c \<le> n - 1" using assms(1) by (simp add: less_eq_div_iff_mult_less_eq)
  then show ?thesis using assms(2) by linarith
qed

lemma last_chunk_bounds:
  assumes "0 < (c::nat)" "0 < n"
  shows "((n - 1) div c) * c < n" "n - ((n - 1) div c) * c \<le> c"
proof -
  have a: "((n - 1) div c) * c \<le> n - 1" by simp
  then show "((n - 1) div c) * c < n" using assms(2) by linarith
  have "n - 1 < ((n - 1) div c) * c + c"
    using assms(1) by (metis add.commute div_mult_mod_eq mod_less_divisor add_less_cancel_left mult.commute)
  then show "n - ((n - 1) div c) * c \<le> c" by linarith
qed

lemma paginated_tasks:
  assumes c: "0 < chunksize"
    and dist: "distinct (map doc_id (docs coll))"
    and ne: "match_stage m (docs coll) \<noteq> []"
    and nrows: "int (length (match_stage m (docs coll))) \<le> nrows"
  shows "\<exists>ps ts t. paginate_ids coll m nrows chunksize = Inr ps
     \<and> make_dsk ps = ts @ [t]
     \<and> length ps = length ts + 1
     \<and> length ts = (length (match_stage m (docs coll)) - 1) div nat chunksize
     \<and> (\<forall>u \<in> set ts. length (run_task coll m u) = nat chunksize)
     \<and> 0 < length (run_task coll m t)
     \<and> length (run_task coll m t) \<le> nat chunksize"
proof -
  let ?ids = "find_sorted_ids coll m"
  let ?n = "length ?ids"
  let ?c = "nat chunksize"
  let ?k = "(?n - 1) div ?c"
  let ?B = "bnds chunksize 0 ?ids"
  have cpos: "0 < ?c" using c by simp
  have n_eq: "?n = length (match_stage m (docs coll))" by (rule find_sorted_ids_props(4))
  have npos: "0 < ?n" using ne n_eq by simp
  have idsne: "?ids \<noteq> []" using npos by auto
  have srt: "sorted ?ids" by (rule find_sorted_ids_props(1))
  have dst: "distinct ?ids"
    using dist by (simp add: find_sorted_ids_def match_stage_def distinct_map_filter)
  have len: "int ?n \<le> nrows" using nrows n_eq by simp
  obtain f where f: "\<forall>d \<in> set (docs coll). f \<le> doc_id d"
    "paginate_ids coll m nrows chunksize = Inr (zip (f # ?B) (?B @ [last ?ids]))"
    using paginate_ids_result[OF idsne len] by blast
  have flo: "\<forall>x \<in> set ?ids. f \<le> x"
    using f(1) by (auto simp: find_sorted_ids_props(3) match_stage_def)
  have B: "?B = map (\<lambda>i. ?ids ! ((i + 1) * ?c)) [0..<?k]" by (rule bnds_closed[OF c])
  have lenB: "length ?B = ?k" by (simp add: B)
  let ?ts = "map open_task (zip (f # ?B) ?B)"
  let ?t = "closed_task (last (f # ?B), last ?ids)"
  have dsk: "make_dsk (zip (f # ?B) (?B @ [last ?ids])) = ?ts @ [?t]"
    by (simp only: zip_snoc_shift[symmetric] make_dsk_snoc)
  have lents: "length ?ts = ?k" by (simp add: lenB)
  have lenps: "length (zip (f # ?B) (?B @ [last ?ids])) = length ?ts + 1" by simp
  have lower: "(f # ?B) ! i = (if i * ?c = 0 then f else ?ids ! (i * ?c))" if "i \<le> ?k" for i
  proof (cases i)
    case 0
    then show ?thesis by simp
  next
    case (Suc j)
    then have "j < ?k" using that by simp
    then have "?B ! j = ?ids ! ((j + 1) * ?c)" unfolding B by simp
    then show ?thesis using Suc cpos by simp
  qed
  have open_count: "length (run_task coll m u) = ?c" if "u \<in> set ?ts" for u
  proof -
    from that obtain i where i: "i < ?k" "u = open_task ((f # ?B) ! i, ?B ! i)"
      by (auto simp: in_set_conv_nth lenB)
    have hi: "?B ! i = ?ids ! ((i + 1) * ?c)" using i(1) unfolding B by simp
    have hib: "(i + 1) * ?c < ?n" by (rule boundary_index[OF cpos npos i(1)])
    have lob: "i * ?c = 0 \<or> i * ?c < ?n" using hib by simp
    have lo: "(f # ?B) ! i = (if i * ?c = 0 then f else ?ids ! (i * ?c))"
      using lower[of i] i(1) by simp
    have "length (run_task coll m u) =
          length (filter (\<lambda>x. (f # ?B) ! i \<le> x \<and> x < ?ids ! ((i + 1) * ?c)) ?ids)"
      unfolding i(2) hi by (rule run_task_count_open)
    also have "\<dots> = (i + 1) * ?c - i * ?c"
      unfolding lo
      by (rule count_range_open[OF srt dst hib])
         (rule lower_bound_positions[OF srt dst flo lob])
    also have "\<dots> = ?c" by simp
    finally show ?thesis .
  qed
  have lastlo: "last (f # ?B) = (if ?k * ?c = 0 then f else ?ids ! (?k * ?c))"
  proof -
    have "last (f # ?B) = (f # ?B) ! (length (f # ?B) - 1)" by (rule last_conv_nth) simp
    moreover have "length (f # ?B) - 1 = ?k" by (simp add: lenB)
    ultimately have "last (f # ?B) = (f # ?B) ! ?k" by (simp only:)
    then show ?thesis using lower[of ?k] by simp
  qed
  have kb: "?k * ?c < ?n" "?n - ?k * ?c \<le> ?c" using last_chunk_bounds[OF cpos npos] by simp_all
  have lastb: "?k * ?c = 0 \<or> ?k * ?c < ?n" using kb(1) by simp
  have "length (run_task coll m ?t) =
        length (filter (\<lambda>x. last (f # ?B) \<le> x \<and> x \<le> last ?ids) ?ids)"
    by (rule run_task_count_closed)
  also have "\<dots> = ?n - ?k * ?c"
    unfolding lastlo
    by (rule count_range_closed[OF srt dst idsne])
       (rule lower_bound_positions[OF srt dst flo lastb])
  finally have last_count: "length (run_task coll m ?t) = ?n - ?k * ?c" .
  show ?thesis
  proof (intro exI[of _ "zip (f # ?B) (?B @ [last ?ids])"] exI[of _ ?ts] exI[of _ ?t] conjI)
    show "paginate_ids coll m nrows chunksize = Inr (zip (f # ?B) (?B @ [last ?ids]))"
      by (rule f(2))
    show "make_dsk (zip (f # ?B) (?B @ [last ?ids])) = ?ts @ [?t]" by (rule dsk)
    show "length (zip (f # ?B) (?B @ [last ?ids])) = length ?ts + 1" by (rule lenps)
    show "length ?ts = (length (match_stage m (docs coll)) - 1) div ?c"
      using lents n_eq by simp
    show "\<forall>u \<in> set ?ts. length (run_task coll m u) = ?c" using open_count by blast
    show "0 < length (run_task coll m ?t)" using last_count kb(1) by simp
    show "length (run_task coll m ?t) \<le> ?c" using last_count kb(2) by simp
  qed
qed



text \<open>The model run on the example: two descriptors, the first one half-open.\<close>

lemma three_docs_bag:
  "read_mongo three_docs 2 match_all False True =
     Inr \<lparr>bag_dsk = [\<lparr>task_id_min = 1, task_id_max = 3, task_include_last = False\<rparr>,
                     \<lparr>task_id_min = 3, task_id_max = 3, task_include_last = True\<rparr>],
          bag_npartitions = 2\<rparr>"
  by (simp add: read_mongo_def count_rows_def count_stage_def py_next_def match_stage_def
        match_all_def ceil_div_def paginate_ids_def find_one_sorted_def subscript_id_def
        find_sorted_ids_def truthy_def word_le_nat_alt make_dsk_def enumerate_eq_zip)

section \<open>The connection cache: lemmas\<close>

lemmas cache_defs = get_client_def cache_inner_def make_key_def key_hash_def FrozenKwargs_hash_def
  py_hash_def cache_inner_body_def MongoClient_def appname_key_def atexit_register_def
  type_of_def CACHE_SIZE_def hit_def key_eq_def FrozenKwargs_eq_def py_eq_def

lemma get_client_closed: "closed_clients (snd (get_client kwargs p)) = closed_clients p"
  by (simp add: cache_defs Let_def split: sum.splits option.splits prod.splits)

lemma hash_all_eq:
  "hash_all vs = (if list_all hashable vs then Inr (map canon_of vs) else Inl TypeError)"
  by (induction vs) (auto simp: py_hash_def)

lemma FrozenKwargs_hash_perm:
  assumes "mset a = mset b"
  shows "FrozenKwargs_hash (FrozenKwargs a) = FrozenKwargs_hash (FrozenKwargs b)"
proof -
  have s: "set a = set b" using assms by (rule mset_eq_setD)
  show ?thesis
    by (simp add: FrozenKwargs_hash_def hash_all_eq list_all_iff s)
qed

lemma canon_of_dict_perm:
  assumes "mset a = mset b"
  shows "canon_of (PDict a) = canon_of (PDict b)"
proof -
  have s: "set a = set b" using assms by (rule mset_eq_setD)
  have "fset_of_list (map (\<lambda>(k, v). (canon_of k, canon_of v)) a)
        = fset_of_list (map (\<lambda>(k, v). (canon_of k, canon_of v)) b)"
    by (rule fset_eqI) (simp add: fset_of_list.rep_eq s)
  then show ?thesis by simp
qed

lemma hit_perm:
  assumes "mset a = mset b"
  shows "hit h (make_key (FrozenKwargs a) True) e = hit h (make_key (FrozenKwargs b) True) e"
  using canon_of_dict_perm[OF assms]
  by (simp add: hit_def key_eq_def make_key_def FrozenKwargs_eq_def py_eq_def type_of_def)

lemma key_hash_perm:
  assumes "mset a = mset b"
  shows "key_hash (make_key (FrozenKwargs a) True) = key_hash (make_key (FrozenKwargs b) True)"
  using FrozenKwargs_hash_perm[OF assms]
  by (simp add: key_hash_def make_key_def type_of_def split: sum.splits)


lemma find_append:
  "find P (xs @ ys) = (case find P xs of None \<Rightarrow> find P ys | Some x \<Rightarrow> Some x)"
  by (induction xs) auto

lemma key_eq_sym: "key_eq a b = key_eq b a"
  unfolding key_eq_def FrozenKwargs_eq_def py_eq_def by (auto simp del: canon_of.simps)

lemma set_remove1_append:
  "x \<in> set xs \<Longrightarrow> set (remove1 x xs @ [x]) = set xs"
  by (induction xs) auto

lemma cache_ok_fresh: "cache_ok fresh_process"
  by (simp add: cache_ok_def fresh_process_def)

lemma cache_inner_body_cache: "cache (snd (cache_inner_body kwargs p)) = cache p"
  by (simp add: cache_inner_body_def MongoClient_def atexit_register_def)

lemma cache_ok_get_client:
  assumes ok: "cache_ok p"
  shows "cache_ok (snd (get_client kwargs p))"
proof -
  let ?k = "make_key (FrozenKwargs kwargs) True"
  show ?thesis
  proof (cases "key_hash ?k")
    case (Inl e)
    then show ?thesis using ok by (simp add: get_client_def cache_inner_def)
  next
    case (Inr h)
    show ?thesis
    proof (cases "find (hit h ?k) (cache p)")
      case (Some e)
      then have "e \<in> set (cache p)" by (auto simp: find_Some_iff)
      then have "set (remove1 e (cache p) @ [e]) = set (cache p)"
        by (rule set_remove1_append)
      moreover have "cache (snd (get_client kwargs p)) = remove1 e (cache p) @ [e]"
        using Some Inr by (simp add: get_client_def cache_inner_def)
      ultimately show ?thesis using ok by (simp add: cache_ok_def)
    next
      case None
      from None have nohit: "\<forall>e \<in> set (cache p). \<not> hit h ?k e"
        unfolding find_None_iff by blast
      obtain r p' where body: "cache_inner_body (FrozenKwargs kwargs) p = (r, p')"
        by (cases "cache_inner_body (FrozenKwargs kwargs) p") auto
      have cp': "cache p' = cache p"
        using cache_inner_body_cache[of "FrozenKwargs kwargs" p] body by simp
      show ?thesis
      proof (cases r)
        case (Inl e)
        then have "cache (snd (get_client kwargs p)) = cache p"
          using None \<open>key_hash ?k = Inr h\<close> body cp'
          by (simp add: get_client_def cache_inner_def)
        then show ?thesis using ok by (simp add: cache_ok_def)
      next
        case (Inr c)
        let ?old = "if length (cache p) \<ge> CACHE_SIZE then tl (cache p) else cache p"
        have cp: "cache (snd (get_client kwargs p)) = ?old @ [(?k, c)]"
          using None \<open>key_hash ?k = Inr h\<close> Inr body cp'
          by (simp add: get_client_def cache_inner_def)
        have "set (tl (cache p)) \<subseteq> set (cache p)" by (cases "cache p") auto
        then have sub: "set ?old \<subseteq> set (cache p)" by simp
        have new: "e = (?k, c)"
          if "e \<in> set ?old \<union> {(?k, c)}" "key_hash (fst e) = key_hash ?k" "key_eq (fst e) ?k" for e
        proof (rule ccontr)
          assume "e \<noteq> (?k, c)"
          then have "e \<in> set (cache p)" using that(1) sub by auto
          moreover have "hit h ?k e" using that(2,3) \<open>key_hash ?k = Inr h\<close> by (simp add: hit_def)
          ultimately show False using nohit by blast
        qed
        have "e = e'"
          if "e \<in> set ?old \<union> {(?k, c)}" "e' \<in> set ?old \<union> {(?k, c)}"
             "key_hash (fst e) = key_hash (fst e')" "key_eq (fst e) (fst e')" for e e'
        proof (cases "e = (?k, c) \<or> e' = (?k, c)")
          case True
          then show ?thesis
          proof
            assume e: "e = (?k, c)"
            have "e' = (?k, c)" using that e new[of e'] by (simp add: key_eq_sym)
            with e show ?thesis by simp
          next
            assume e': "e' = (?k, c)"
            have "e = (?k, c)" using that e' new[of e] by simp
            with e' show ?thesis by simp
          qed
        next
          case False
          then have "e \<in> set (cache p)" "e' \<in> set (cache p)" using that(1,2) sub by auto
          then show ?thesis using ok that(3,4) unfolding cache_ok_def by blast
        qed
        then show ?thesis unfolding cache_ok_def cp by auto
      qed
    qed
  qed
qed

section \<open>The write fan-out: lemmas\<close>

lemma copy_all_frame:
  "copy_all vs s = (as, s') \<Longrightarrow>
   take (length (heap s)) (heap s') = heap s \<and> length (heap s) \<le> length (heap s')
   \<and> (\<forall>a \<in> set as. length (heap s) \<le> a)
   \<and> insert_many_calls s' = insert_many_calls s"
proof (induction vs arbitrary: s as s')
  case Nil
  then show ?case by simp
next
  case (Cons v vs)
  let ?s1 = "s\<lparr>heap := heap s @ [heap s ! v]\<rparr>"
  obtain bs s2 where r: "copy_all vs ?s1 = (bs, s2)" by (cases "copy_all vs ?s1") auto
  have as: "as = length (heap s) # bs" and s': "s' = s2"
    using Cons.prems r by (simp_all add: copy_doc_def)
  have ih: "take (length (heap ?s1)) (heap s2) = heap ?s1" "length (heap ?s1) \<le> length (heap s2)"
    "\<forall>a \<in> set bs. length (heap ?s1) \<le> a" "insert_many_calls s2 = insert_many_calls ?s1"
    using Cons.IH[OF r] by simp_all
  have "take (length (heap s)) (heap s2) = take (length (heap s)) (take (length (heap ?s1)) (heap s2))"
    by simp
  also have "\<dots> = heap s" unfolding ih(1) by simp
  finally have t: "take (length (heap s)) (heap s2) = heap s" .
  show ?case using t ih(2,3,4) by (auto simp: as s')
qed

lemma assign_ids_frame:
  "assign_ids as s = (ds, s') \<Longrightarrow> \<forall>a \<in> set as. n \<le> a \<Longrightarrow>
   take n (heap s') = take n (heap s) \<and> insert_many_calls s' = insert_many_calls s"
proof (induction as arbitrary: s ds s')
  case Nil
  then show ?case by simp
next
  case (Cons a as)
  show ?case
  proof (cases "py_id (heap s ! a)")
    case (Some i)
    obtain es s2 where r: "assign_ids as s = (es, s2)" by (cases "assign_ids as s") auto
    then have "s' = s2" using Cons.prems(1) Some by simp
    then show ?thesis using Cons.IH[OF r] Cons.prems(2) by simp
  next
    case None
    let ?s1 = "s\<lparr>oids_made := oids_made s + 1,
                 heap := (heap s)[a := (heap s ! a)\<lparr>py_id := Some (new_oid s (oids_made s))\<rparr>]\<rparr>"
    obtain es s2 where r: "assign_ids as ?s1 = (es, s2)" by (cases "assign_ids as ?s1") auto
    then have "s' = s2" using Cons.prems(1) None by (simp add: ObjectId_new_def)
    moreover have "take n (heap ?s1) = take n (heap s)" using Cons.prems(2) by simp
    ultimately show ?thesis using Cons.IH[OF r] Cons.prems(2) by simp
  qed
qed

lemmas write_defs = to_mongo_def write_mongo_def insert_many_def copy_doc_def ObjectId_new_def

lemmas read_defs = read_mongo_def count_rows_def count_stage_def py_next_def match_stage_def
  match_all_def ceil_div_def paginate_ids_def find_one_sorted_def subscript_id_def
  find_sorted_ids_def truthy_def word_le_nat_alt make_dsk_def enumerate_eq_zip

text \<open>
  The model run on the example: a bag of two partitions is written through copies, which
  get the new identifiers; \<open>insert_many\<close> called on the documents themselves would mark
  them.
\<close>

lemma write_three:
  "fst (to_mongo [[0, 1], [2]] True three_values) = Inr ()
   \<and> docs (target (snd (to_mongo [[0, 1], [2]] True three_values)))
       = [\<lparr>doc_id = 1, doc_fields = [(''x'', BInt 10)]\<rparr>,
          \<lparr>doc_id = 2, doc_fields = [(''x'', BInt 20)]\<rparr>,
          \<lparr>doc_id = 3, doc_fields = [(''x'', BInt 30)]\<rparr>]
   \<and> take 3 (heap (snd (to_mongo [[0, 1], [2]] True three_values))) = heap three_values
   \<and> insert_many_calls (snd (to_mongo [[0, 1], [2]] True three_values)) = [[3, 4], [5]]"
  by (simp add: write_defs)

lemma insert_many_mutates:
  "map py_id (heap (snd (insert_many [0, 1, 2] three_values))) = [Some 1, Some 2, Some 3]"
  by (simp add: write_defs)

text \<open>
  The example read back: the three documents written above come back, with the paginated
  scan and a chunk size of two, in two partitions and with their entries unchanged.
\<close>

lemma written_three:
  "target (snd (to_mongo [[0, 1], [2]] True three_values))
     = \<lparr>docs = [\<lparr>doc_id = 1, doc_fields = [(''x'', BInt 10)]\<rparr>,
                \<lparr>doc_id = 2, doc_fields = [(''x'', BInt 20)]\<rparr>,
                \<lparr>doc_id = 3, doc_fields = [(''x'', BInt 30)]\<rparr>],
        estimated_document_count = 3, bucket_auto = (\<lambda>ids k. Inr [])\<rparr>"
  by (simp add: write_defs)

lemma round_trip_three:
  "read_mongo (target (snd (to_mongo [[0, 1], [2]] True three_values))) 2 match_all False True
     = Inr \<lparr>bag_dsk = [\<lparr>task_id_min = 1, task_id_max = 3, task_include_last = False\<rparr>,
                       \<lparr>task_id_min = 3, task_id_max = 3, task_include_last = True\<rparr>],
            bag_npartitions = 2\<rparr>
   \<and> map doc_fields
         (compute (target (snd (to_mongo [[0, 1], [2]] True three_values))) match_all
            \<lparr>bag_dsk = [\<lparr>task_id_min = 1, task_id_max = 3, task_include_last = False\<rparr>,
                        \<lparr>task_id_min = 3, task_id_max = 3, task_include_last = True\<rparr>],
             bag_npartitions = 2\<rparr>)
       = map py_fields (heap three_values)"
  unfolding written_three
  by (simp add: read_defs compute_def run_task_def fetch_mongo_def match2_def word_less_nat_alt)

section \<open>Results\<close>

text \<open>
  C1, as stated, fails for a list against a tuple: the two configurations hash alike, since
  the list is tupled before hashing, but \<open>dict\<close> equality tells a list from a tuple, so the
  second request is a miss and opens a second client.
\<close>

theorem list_and_tuple_get_distinct_clients:
  "FrozenKwargs_hash (FrozenKwargs [(PStr ''host'', PList [PStr ''db1'', PStr ''db2''])])
     = FrozenKwargs_hash (FrozenKwargs [(PStr ''host'', PTuple [PStr ''db1'', PStr ''db2''])])
   \<and> fst (get_client [(PStr ''host'', PList [PStr ''db1'', PStr ''db2''])] fresh_process) = Inr 0
   \<and> fst (get_client [(PStr ''host'', PTuple [PStr ''db1'', PStr ''db2''])]
           (snd (get_client [(PStr ''host'', PList [PStr ''db1'', PStr ''db2''])] fresh_process)))
       = Inr 1"
  by (simp add: cache_defs fresh_process_def)

text \<open>
  C1, amended. Two configurations with the same items in a different key order get the same
  client: when a request returns a client, a following request with the items permuted
  returns that client.
\<close>

theorem same_items_same_client:
  assumes ok: "cache_ok p"
    and perm: "mset kwargs2 = mset kwargs1"
    and first: "get_client kwargs1 p = (Inr c, p1)"
  shows "fst (get_client kwargs2 p1) = Inr c"
proof -
  let ?k1 = "make_key (FrozenKwargs kwargs1) True"
  let ?k2 = "make_key (FrozenKwargs kwargs2) True"
  obtain h where h: "key_hash ?k1 = Inr h"
    using first by (cases "key_hash ?k1") (simp_all add: get_client_def cache_inner_def)
  have h2: "key_hash ?k2 = Inr h" using key_hash_perm[OF perm] h by simp
  have same: "find (hit h ?k2) es = find (hit h ?k1) es" for es
    by (rule find_cong) (simp_all add: hit_perm[OF perm])
  have self: "hit h ?k1 (?k1, c)"
    by (simp add: hit_def h key_eq_def FrozenKwargs_eq_def py_eq_def)
  have second: "fst (get_client kwargs2 p1) =
      (case find (hit h ?k1) (cache p1) of
         Some entry \<Rightarrow> Inr (snd entry)
       | None \<Rightarrow> fst (cache_inner_body (FrozenKwargs kwargs2) p1))"
    by (simp add: get_client_def cache_inner_def h2 same split: option.splits prod.splits sum.splits)
  show ?thesis
  proof (cases "find (hit h ?k1) (cache p)")
    case None
    from None have nohit: "\<forall>e \<in> set (cache p). \<not> hit h ?k1 e"
      unfolding find_None_iff by blast
    obtain p' where body: "cache_inner_body (FrozenKwargs kwargs1) p = (Inr c, p')"
      and p1: "p1 = p'\<lparr>cache := (if length (cache p') \<ge> CACHE_SIZE then tl (cache p') else cache p')
                                    @ [(?k1, c)]\<rparr>"
      using first None
      by (auto simp: get_client_def cache_inner_def h split: prod.splits sum.splits)
    have cp: "cache p' = cache p"
      using body by (auto simp: cache_inner_body_def MongoClient_def atexit_register_def split: if_splits)
    let ?old = "if length (cache p) \<ge> CACHE_SIZE then tl (cache p) else cache p"
    have "set (tl (cache p)) \<subseteq> set (cache p)" by (cases "cache p") auto
    then have "set ?old \<subseteq> set (cache p)" by simp
    then have old: "find (hit h ?k1) ?old = None" using nohit by (auto simp: find_None_iff)
    have cp1: "cache p1 = ?old @ [(?k1, c)]" by (simp add: p1 cp)
    have f1: "find (hit h ?k1) (cache p1) = Some (?k1, c)"
      unfolding cp1 find_append old using self by simp
    show ?thesis unfolding second f1 by simp
  next
    case (Some e)
    then have c: "c = snd e" and p1: "p1 = p\<lparr>cache := remove1 e (cache p) @ [e]\<rparr>"
      using first by (auto simp: get_client_def cache_inner_def h)
    have e: "e \<in> set (cache p)" "hit h ?k1 e"
      using Some by (auto simp: find_Some_iff)
    have uniq: "e' = e" if "e' \<in> set (cache p)" "hit h ?k1 e'" for e'
    proof -
      have "key_hash (fst e') = key_hash (fst e)" using that(2) e(2) by (simp add: hit_def)
      moreover have "key_eq (fst e') (fst e)"
        using that(2) e(2) by (simp add: hit_def key_eq_def FrozenKwargs_eq_def py_eq_def)
      ultimately show ?thesis using ok that(1) e(1) unfolding cache_ok_def by blast
    qed
    have f2: "find (hit h ?k1) (remove1 e (cache p) @ [e]) = Some e"
    proof (cases "find (hit h ?k1) (remove1 e (cache p))")
      case None
      then show ?thesis using e(2) by (simp add: find_append)
    next
      case (Some e')
      then have "e' \<in> set (remove1 e (cache p))" "hit h ?k1 e'" by (auto simp: find_Some_iff)
      then have "e' = e" using uniq notin_set_remove1 by (metis)
      then show ?thesis using Some by (simp add: find_append)
    qed
    have cp1: "cache p1 = remove1 e (cache p) @ [e]" by (simp add: p1)
    show ?thesis unfolding second cp1 f2 by (simp add: c)
  qed
qed

theorem same_items_same_client_witness:
  "cache_ok fresh_process
   \<and> mset [(PStr ''port'', PInt 27017), (PStr ''host'', PStr ''db1'')]
       = mset [(PStr ''host'', PStr ''db1''), (PStr ''port'', PInt 27017)]
   \<and> fst (get_client [(PStr ''host'', PStr ''db1''), (PStr ''port'', PInt 27017)] fresh_process)
       = Inr 0
   \<and> fst (get_client [(PStr ''port'', PInt 27017), (PStr ''host'', PStr ''db1'')]
           (snd (get_client [(PStr ''host'', PStr ''db1''), (PStr ''port'', PInt 27017)]
                  fresh_process))) = Inr 0"
proof -
  let ?kw1 = "[(PStr ''host'', PStr ''db1''), (PStr ''port'', PInt 27017)]"
  let ?kw2 = "[(PStr ''port'', PInt 27017), (PStr ''host'', PStr ''db1'')]"
  have ok: "cache_ok fresh_process" by (simp add: cache_ok_def fresh_process_def)
  have perm: "mset ?kw2 = mset ?kw1" by simp
  have r: "fst (get_client ?kw1 fresh_process) = Inr 0"
    by (simp add: cache_defs fresh_process_def)
  then have first: "get_client ?kw1 fresh_process = (Inr 0, snd (get_client ?kw1 fresh_process))"
    by (metis prod.collapse)
  show ?thesis
    using same_items_same_client[OF ok perm first] ok perm r by simp
qed




text \<open>
  C3. On an empty matched set \<open>read_mongo\<close> raises instead of returning a bag without
  partitions. With the exact count, \<open>next\<close> finds no \<open>$count\<close> row and raises
  \<open>StopIteration\<close> on either strategy. With the estimated count the paginated scan raises
  as well: on an empty collection \<open>find_one\<close> returns \<open>None\<close>, which is subscripted, and
  on a non-empty collection without a match the loop variable \<open>doc\<close> is read unbound.
\<close>

theorem read_mongo_empty_match_raises:
  "read_mongo no_docs 1000 match_all False False = Inl StopIteration
   \<and> read_mongo no_docs 1000 match_all False True = Inl StopIteration
   \<and> read_mongo no_docs 1000 match_all True True = Inl TypeError
   \<and> read_mongo three_docs 1000 (\<lambda>d. False) False True = Inl StopIteration
   \<and> read_mongo three_docs 1000 (\<lambda>d. False) True True = Inl UnboundLocalError"
  by (simp add: read_mongo_def count_rows_def count_stage_def py_next_def match_stage_def
        match_all_def ceil_div_def paginate_ids_def find_one_sorted_def subscript_id_def
        find_sorted_ids_def truthy_def word_le_nat_alt)

text \<open>
  C4, as stated, fails when the estimated count is used and lies below the number of matched
  documents. With three documents, an estimate of two and a chunk size of one, the paginated
  scan returns two tasks, which fetch one and two documents, where \<open>ceil(3 / 1)\<close> is three.
\<close>

theorem stale_estimate_gives_fewer_partitions:
  "read_mongo stale_two 1 match_all True True
     = Inr \<lparr>bag_dsk = [\<lparr>task_id_min = 1, task_id_max = 2, task_include_last = False\<rparr>,
                       \<lparr>task_id_min = 2, task_id_max = 3, task_include_last = True\<rparr>],
            bag_npartitions = 2\<rparr>
   \<and> length (match_stage match_all (docs stale_two)) = 3
   \<and> \<lceil>real 3 / real_of_int 1\<rceil> = (3::int)
   \<and> map (\<lambda>t. length (run_task stale_two match_all t))
         [\<lparr>task_id_min = 1, task_id_max = 2, task_include_last = False\<rparr>,
          \<lparr>task_id_min = 2, task_id_max = 3, task_include_last = True\<rparr>] = [1, 2]"
  by (simp add: read_defs run_task_def fetch_mongo_def match2_def word_less_nat_alt)

text \<open>
  C4, amended. On a non-empty matched set of \<open>n\<close> documents with distinct identifiers and a
  positive chunk size \<open>c\<close>, with a row count that is not below \<open>n\<close> (the exact count always
  is; the estimate is assumed to be), the paginated scan returns \<open>ceil(n / c)\<close> tasks; every
  task but the last fetches exactly \<open>c\<close> documents, and the last one at least one and at
  most \<open>c\<close>.
\<close>

theorem paginated_scan_partition_sizes:
  assumes "0 < chunksize"
    and "distinct (map doc_id (docs coll))"
    and "match_stage m (docs coll) \<noteq> []"
    and "use_estimated_count \<Longrightarrow>
           length (match_stage m (docs coll)) \<le> estimated_document_count coll"
  shows "\<exists>b. read_mongo coll chunksize m use_estimated_count True = Inr b
     \<and> int (length (bag_dsk b))
         = \<lceil>real (length (match_stage m (docs coll))) / real_of_int chunksize\<rceil>
     \<and> bag_npartitions b = length (bag_dsk b)
     \<and> (\<forall>t \<in> set (butlast (bag_dsk b)). int (length (run_task coll m t)) = chunksize)
     \<and> 0 < length (run_task coll m (last (bag_dsk b)))
     \<and> int (length (run_task coll m (last (bag_dsk b)))) \<le> chunksize"
proof -
  let ?n = "length (match_stage m (docs coll))"
  obtain nrows where nrows: "count_rows coll m use_estimated_count = Inr nrows" "int ?n \<le> nrows"
    using count_rows_ok[OF assms(3,4)] by blast
  have cd: "ceil_div nrows chunksize = Inr (- ((- nrows) div chunksize))"
    using assms(1) by (simp add: ceil_div_def)
  obtain ps ts t where p: "paginate_ids coll m nrows chunksize = Inr ps"
      "make_dsk ps = ts @ [t]" "length ps = length ts + 1"
      "length ts = (?n - 1) div nat chunksize"
      "\<forall>u \<in> set ts. length (run_task coll m u) = nat chunksize"
      "0 < length (run_task coll m t)"
      "length (run_task coll m t) \<le> nat chunksize"
    using paginated_tasks[OF assms(1,2,3) nrows(2)] by blast
  let ?b = "\<lparr>bag_dsk = ts @ [t], bag_npartitions = length ts + 1\<rparr>"
  have r: "read_mongo coll chunksize m use_estimated_count True = Inr ?b"
    by (simp add: read_mongo_def nrows(1) cd p(1,2,3))
  have npos: "0 < ?n" using assms(3) by simp
  have cnt: "int (length (bag_dsk ?b)) = \<lceil>real ?n / real_of_int chunksize\<rceil>"
    using ceiling_as_div[OF assms(1) npos] p(4) by simp
  have sizes: "\<forall>u \<in> set (butlast (bag_dsk ?b)). int (length (run_task coll m u)) = chunksize"
    using p(5) assms(1) by simp
  have l1: "0 < length (run_task coll m (last (bag_dsk ?b)))" using p(6) by simp
  have l2: "int (length (run_task coll m (last (bag_dsk ?b)))) \<le> chunksize"
    using p(7) assms(1) by simp
  show ?thesis
    by (intro exI[of _ ?b] conjI r cnt sizes l1 l2) simp
qed

theorem paginated_scan_partition_sizes_witness:
  "\<exists>b. read_mongo three_docs 2 match_all False True = Inr b
     \<and> int (length (bag_dsk b))
         = \<lceil>real (length (match_stage match_all (docs three_docs))) / real_of_int 2\<rceil>
     \<and> bag_npartitions b = length (bag_dsk b)
     \<and> (\<forall>t \<in> set (butlast (bag_dsk b)). int (length (run_task three_docs match_all t)) = 2)
     \<and> 0 < length (run_task three_docs match_all (last (bag_dsk b)))
     \<and> int (length (run_task three_docs match_all (last (bag_dsk b)))) \<le> 2"
proof -
  have d: "distinct (map doc_id (docs three_docs))" by simp
  have ne: "match_stage match_all (docs three_docs) \<noteq> []"
    by (simp add: match_stage_def match_all_def)
  show ?thesis
    using paginated_scan_partition_sizes[of 2 three_docs match_all False] d ne by simp
qed

text \<open>
  C5. Evaluated on the model: writing no document into an empty collection and reading back
  raises. A bag without partitions writes nothing, and \<open>read_mongo\<close> then raises
  \<open>StopIteration\<close> on either strategy; a bag with one empty partition already fails in
  \<open>to_mongo\<close>, where \<open>insert_many\<close> rejects the empty list.
\<close>

theorem round_trip_of_no_documents_raises:
  "to_mongo [] True empty_store = (Inr (), empty_store)
   \<and> read_mongo (target empty_store) 1000 match_all False False = Inl StopIteration
   \<and> read_mongo (target empty_store) 1000 match_all False True = Inl StopIteration
   \<and> fst (to_mongo [[]] True empty_store) = Inl TypeError"
  by (simp add: write_defs read_defs)

text \<open>
  C6. \<open>write_mongo\<close> leaves every dictionary that existed before the call as it was, the
  caller's documents among them: the identifiers are stored in the copies, which are
  allocated after them.
\<close>

theorem write_mongo_preserves_callers_documents:
  "take (length (heap s)) (heap (snd (write_mongo values s))) = heap s"
proof -
  obtain copies s1 where c: "copy_all values s = (copies, s1)" by (cases "copy_all values s") auto
  have f1: "take (length (heap s)) (heap s1) = heap s" "length (heap s) \<le> length (heap s1)"
    "\<forall>a \<in> set copies. length (heap s) \<le> a"
    using copy_all_frame[OF c] by simp_all
  let ?s0 = "s1\<lparr>insert_many_calls := insert_many_calls s1 @ [copies]\<rparr>"
  show ?thesis
  proof (cases "copies = []")
    case True
    then show ?thesis using f1(1) by (simp add: write_mongo_def c insert_many_def)
  next
    case False
    obtain ds s2 where a: "assign_ids copies ?s0 = (ds, s2)" by (cases "assign_ids copies ?s0") auto
    have "take (length (heap s)) (heap s2) = take (length (heap s)) (heap ?s0)"
      using assign_ids_frame[OF a f1(3)] by simp
    then have "take (length (heap s)) (heap s2) = heap s" using f1(1) by simp
    then show ?thesis
      using False by (simp add: write_mongo_def c insert_many_def a split: prod.splits)
  qed
qed

text \<open>
  C7. Evaluated on the model: \<open>write_mongo\<close> on an empty list calls \<open>insert_many\<close> once,
  with the empty list, which the driver rejects with \<open>TypeError\<close>; the collection is left
  as it was.
\<close>

theorem write_mongo_empty_calls_insert_many:
  "fst (write_mongo [] s) = Inl TypeError
   \<and> insert_many_calls (snd (write_mongo [] s)) = insert_many_calls s @ [[]]
   \<and> target (snd (write_mongo [] s)) = target s"
  by (simp add: write_mongo_def insert_many_def)

text \<open>
  C8. Evaluated on the model: a port given as the integer 27017 and then as the float
  27017.0, or a flag given as \<open>True\<close> and then as \<open>1\<close>, are answered by one cache entry and one
  client. The \<open>typed\<close> flag adds the type of the argument, which is always
  \<open>_FrozenKwargs\<close>, not the types of the values inside it.
\<close>

theorem equal_values_of_different_type_share_a_client:
  "fst (get_client [(PStr ''port'', PInt 27017)] fresh_process) = Inr 0
   \<and> fst (get_client [(PStr ''port'', PFloat 27017)]
           (snd (get_client [(PStr ''port'', PInt 27017)] fresh_process))) = Inr 0
   \<and> length (cache (snd (get_client [(PStr ''port'', PFloat 27017)]
           (snd (get_client [(PStr ''port'', PInt 27017)] fresh_process))))) = 1
   \<and> fst (get_client [(PStr ''tls'', PBool True)] fresh_process) = Inr 0
   \<and> fst (get_client [(PStr ''tls'', PInt 1)]
           (snd (get_client [(PStr ''tls'', PBool True)] fresh_process))) = Inr 0"
  by (simp add: cache_defs fresh_process_def)

text \<open>
  C9. Evaluated on the model: no request ever closes a client, evicting or not; after
  seventeen configurations the first client has left the cache and nothing has been closed;
  and the callable registered for exit is a \<open>WeakMethod\<close>, whose call closes nothing.
\<close>

theorem clients_are_never_closed:
  "closed_clients (snd (get_client kwargs p)) = closed_clients p
   \<and> fst (get_client [] fresh_process) = Inr 0
   \<and> exitfuncs (snd (get_client [] fresh_process)) = [WeakMethod (BoundClose 0)]
   \<and> closed_clients (run_exitfuncs (snd (get_client [] fresh_process))) = []
   \<and> map snd (cache (get_clients seventeen fresh_process))
       = [1, 2, 3, 4, 5, 6, 7, 8, 9, 10, 11, 12, 13, 14, 15, 16]
   \<and> opened (get_clients seventeen fresh_process) = 17
   \<and> closed_clients (run_exitfuncs (get_clients seventeen fresh_process)) = []"
proof -
  have a: "closed_clients (snd (get_client kwargs p)) = closed_clients p" by (rule get_client_closed)
  have b: "fst (get_client [] fresh_process) = Inr 0
   \<and> exitfuncs (snd (get_client [] fresh_process)) = [WeakMethod (BoundClose 0)]
   \<and> closed_clients (run_exitfuncs (snd (get_client [] fresh_process))) = []"
    by (simp add: cache_defs fresh_process_def run_exitfuncs_def)
  have c: "map snd (cache (get_clients seventeen fresh_process))
       = [1, 2, 3, 4, 5, 6, 7, 8, 9, 10, 11, 12, 13, 14, 15, 16]
   \<and> opened (get_clients seventeen fresh_process) = 17
   \<and> closed_clients (run_exitfuncs (get_clients seventeen fresh_process)) = []"
    by (simp add: seventeen_def get_clients_def cache_defs fresh_process_def run_exitfuncs_def)
  show ?thesis using a b c by simp
qed

text \<open>
  C10. With \<open>chunksize = 0\<close> the call never returns a bag: once the rows are counted, the
  division that computes the number of partitions raises \<open>ZeroDivisionError\<close>; the only
  other outcome is the \<open>StopIteration\<close> that the exact count raises before it.
\<close>

theorem read_mongo_zero_chunksize_raises:
  "read_mongo coll 0 m use_estimated_count paginate_partition_ids = Inl ZeroDivisionError
   \<or> read_mongo coll 0 m use_estimated_count paginate_partition_ids = Inl StopIteration"
  by (simp add: read_mongo_def count_rows_def ceil_div_def py_next_def count_stage_def
           split: sum.splits list.splits)



end
